theory Spec2Isabelle
  imports Main "HOL-Library.Sublist"
begin

section \<open>Data model of the auto-responder (src/cogs/autoresponder.py)\<close>

text \<open>
  Python strings are modelled as \<open>string\<close>, one \<open>char\<close> per code point.
  Identifiers (row ids, user, channel and role ids) are Python integers.
  A response is the dictionary \<^verbatim>\<open>{'type': ..., 'content': ...}\<close>.
\<close>

record response =
  rtype :: string
  rcontent :: string

text \<open>
  A trigger is both a row of the table \<^verbatim>\<open>triggers\<close> and the dictionary that
  \<^verbatim>\<open>get_trigger\<close> builds from such a row. The JSON columns are kept decoded:
  \<^verbatim>\<open>json.loads(json.dumps(x))\<close> returns \<open>x\<close> for the lists of integers and of
  response dictionaries stored here, and a stored \<^verbatim>\<open>'[]'\<close> is a non-empty text, so
  the guard \<^verbatim>\<open>if row[6] else []\<close> decodes it to the empty list.
\<close>

record trigger =
  tid :: int
  pattern :: string
  match_type :: string
  case_sensitive :: bool
  responses :: "response list"
  cooldown :: int
  channels :: "int list"
  roles :: "int list"
  blacklist_users :: "int list"
  whitelist_users :: "int list"
  creator_id :: int
  created_at :: nat

text \<open>A row of the table \<^verbatim>\<open>logs\<close>, with the four columns the insert statement fills.\<close>

record usage =
  trigger_id :: int
  user_id :: int
  log_channel_id :: int
  timestamp :: nat

text \<open>
  What \<^verbatim>\<open>on_message\<close> reads of a \<^verbatim>\<open>discord.Message\<close>: \<^verbatim>\<open>message.content\<close>,
  \<^verbatim>\<open>message.author.bot\<close>, \<^verbatim>\<open>message.author.id\<close>, the ids of
  \<^verbatim>\<open>message.author.roles\<close> and \<^verbatim>\<open>message.channel.id\<close>. The author is a member of a
  guild, who has a list of roles. The bot's own account is a bot account, so its own
  messages have \<open>author_bot\<close> set.
\<close>

record message =
  content :: string
  author_bot :: bool
  author_id :: int
  author_roles :: "int list"
  channel_id :: int

text \<open>
  A call of \<^verbatim>\<open>message.channel.send\<close>: either \<^verbatim>\<open>send(response)\<close> with a text, or
  \<^verbatim>\<open>send(embed=response)\<close>, where the embed is \<^verbatim>\<open>Embed(description=content)\<close> or
  \<^verbatim>\<open>None\<close> when \<^verbatim>\<open>create_response\<close> fell through both branches.
\<close>

datatype emission = Send_text string | Send_embed "string option"

datatype error = TypeError | IndexError | ReRaised

text \<open>
  The outcome of \<^verbatim>\<open>re.search(pattern, text)\<close>: a match object or \<^verbatim>\<open>None\<close> (seen
  through \<^verbatim>\<open>bool\<close>), the exception \<^verbatim>\<open>re.error\<close> for a pattern the compiler rejects,
  or any other exception, which the handler \<^verbatim>\<open>except re.error\<close> does not catch.
\<close>

datatype re_outcome = Found bool | Re_error | Re_other

text \<open>
  The Python runtime the cog calls into is a parameter: \<^verbatim>\<open>str.lower\<close>, \<^verbatim>\<open>re.search\<close>,
  and the two sources of outside values, the random generator behind \<^verbatim>\<open>random.choice\<close>
  and the clock behind \<^verbatim>\<open>datetime.utcnow\<close>, each indexed by the number of reads made so
  far.
\<close>

record pyenv =
  str_lower :: "string \<Rightarrow> string"
  re_search :: "string \<Rightarrow> string \<Rightarrow> re_outcome"
  rand :: "nat \<Rightarrow> nat"
  utcnow :: "nat \<Rightarrow> nat"

text \<open>
  The state of the cog: the dictionary \<^verbatim>\<open>self.cache\<close>, the two tables of the database
  in row order, the calls of \<^verbatim>\<open>channel.send\<close> made so far with the channel they went to,
  and the number of reads of the random generator and the clock.
\<close>

record state =
  cache :: "string \<rightharpoonup> trigger"
  triggers :: "trigger list"
  logs :: "usage list"
  sent :: "(int \<times> emission) list"
  tick :: nat

section \<open>The matcher\<close>

text \<open>Python's \<^verbatim>\<open>pattern in message_content\<close> on strings, searched from each position.\<close>

fun str_contains :: "string \<Rightarrow> string \<Rightarrow> bool" where
  "str_contains p [] = (p = [])"
| "str_contains p (c # cs) = (prefix p (c # cs) \<or> str_contains p cs)"

text \<open>
  \<^verbatim>\<open>match_trigger\<close>: both strings are lower-cased when the trigger is not case sensitive,
  then the match type selects the comparison; an unknown match type is no match.
\<close>

definition match_trigger :: "pyenv \<Rightarrow> trigger \<Rightarrow> string \<Rightarrow> error + bool" where
  "match_trigger env trig message_content =
     (let message_content' =
            (if \<not> case_sensitive trig then str_lower env message_content else message_content);
          pattern' = (if \<not> case_sensitive trig then str_lower env (pattern trig) else pattern trig)
      in if match_type trig = ''exact'' then Inr (message_content' = pattern')
         else if match_type trig = ''partial'' then Inr (str_contains pattern' message_content')
         else if match_type trig = ''regex'' then
           (case re_search env pattern' message_content' of
              Found b \<Rightarrow> Inr b
            | Re_error \<Rightarrow> Inr False
            | Re_other \<Rightarrow> Inl ReRaised)
         else Inr False)"

section \<open>The filter checks of \<^verbatim>\<open>on_message\<close>\<close>

text \<open>
  The four guards between the match and the response, each ending the iteration with
  \<^verbatim>\<open>continue\<close>, in the order of the source.
\<close>

definition passes_filters :: "trigger \<Rightarrow> message \<Rightarrow> bool" where
  "passes_filters trig msg =
     (if channels trig \<noteq> [] \<and> channel_id msg \<notin> set (channels trig) then False
      else if roles trig \<noteq> [] \<and> \<not> list_ex (\<lambda>role. role \<in> set (roles trig)) (author_roles msg)
        then False
      else if author_id msg \<in> set (blacklist_users trig) then False
      else if whitelist_users trig \<noteq> [] \<and> author_id msg \<notin> set (whitelist_users trig) then False
      else True)"

section \<open>Cache and store\<close>

text \<open>
  \<^verbatim>\<open>SELECT * FROM triggers WHERE pattern = ?\<close> followed by \<^verbatim>\<open>fetchone\<close>: the first row
  with that pattern, if any. The table has no index on the pattern and the query no
  order, so the rows are scanned by ascending id, which is the order of the list.
\<close>

definition fetchone_by_pattern :: "string \<Rightarrow> trigger list \<Rightarrow> trigger option" where
  "fetchone_by_pattern p rows = find (\<lambda>row. pattern row = p) rows"

definition get_trigger :: "string \<Rightarrow> state \<Rightarrow> trigger option \<times> state" where
  "get_trigger p st =
     (case cache st p of
        Some trig \<Rightarrow> (Some trig, st)
      | None \<Rightarrow>
          (case fetchone_by_pattern p (triggers st) of
             Some trig \<Rightarrow> (Some trig, st\<lparr>cache := (cache st)(p \<mapsto> trig)\<rparr>)
           | None \<Rightarrow> (None, st)))"

text \<open>
  The dictionary \<^verbatim>\<open>trigger_data\<close> handed to \<^verbatim>\<open>add_trigger_to_db\<close>: five keys are read
  with \<^verbatim>\<open>[]\<close>, four with \<^verbatim>\<open>.get(key, [])\<close>.
\<close>

record trigger_data =
  d_pattern :: string
  d_match_type :: string
  d_case_sensitive :: bool
  d_responses :: "response list"
  d_cooldown :: int
  d_channels :: "int list option"
  d_roles :: "int list option"
  d_blacklist_users :: "int list option"
  d_whitelist_users :: "int list option"

text \<open>
  The id of an inserted row: the column is \<^verbatim>\<open>INTEGER PRIMARY KEY\<close>, so SQLite gives one
  more than the largest id in the table, and 1 in an empty table.
\<close>

definition next_id :: "trigger list \<Rightarrow> int" where
  "next_id rows = (case rows of [] \<Rightarrow> 1 | row # rest \<Rightarrow> fold max (map tid rest) (tid row) + 1)"

definition dict_get :: "'a list option \<Rightarrow> 'a list" where
  "dict_get v = (case v of None \<Rightarrow> [] | Some xs \<Rightarrow> xs)"

definition add_trigger_to_db :: "pyenv \<Rightarrow> trigger_data \<Rightarrow> state \<Rightarrow> state" where
  "add_trigger_to_db env d st =
     st\<lparr>triggers := triggers st @
          [\<lparr>tid = next_id (triggers st),
            pattern = d_pattern d,
            match_type = d_match_type d,
            case_sensitive = d_case_sensitive d,
            responses = d_responses d,
            cooldown = d_cooldown d,
            channels = dict_get (d_channels d),
            roles = dict_get (d_roles d),
            blacklist_users = dict_get (d_blacklist_users d),
            whitelist_users = dict_get (d_whitelist_users d),
            creator_id = 1,
            created_at = utcnow env (tick st)\<rparr>],
        tick := Suc (tick st)\<rparr>"

text \<open>
  The command \<^verbatim>\<open>add_trigger\<close>: builds the dictionary, stores it, and answers the
  interaction. The result is the text sent back and the new state.
\<close>

definition add_trigger :: "pyenv \<Rightarrow> string \<Rightarrow> string \<Rightarrow> string \<Rightarrow> state \<Rightarrow> string \<times> state" where
  "add_trigger env pat resp mtype st =
     (let trigger_data =
            \<lparr>d_pattern = pat,
             d_match_type = mtype,
             d_case_sensitive = True,
             d_responses = [\<lparr>rtype = ''text'', rcontent = resp\<rparr>],
             d_cooldown = 0,
             d_channels = None,
             d_roles = None,
             d_blacklist_users = None,
             d_whitelist_users = None\<rparr>
      in (''Trigger '' @ [CHR 0x27] @ pat @ [CHR 0x27] @ '' added successfully!'',
          add_trigger_to_db env trigger_data st))"

text \<open>The command \<^verbatim>\<open>delete_trigger\<close>: deletes the rows, then the cache entry.\<close>

definition delete_trigger :: "string \<Rightarrow> state \<Rightarrow> string \<times> state" where
  "delete_trigger p st =
     (let st1 = st\<lparr>triggers := filter (\<lambda>row. pattern row \<noteq> p) (triggers st)\<rparr>;
          st2 = (if p \<in> dom (cache st1) then st1\<lparr>cache := (cache st1)(p := None)\<rparr> else st1)
      in (''Trigger '' @ [CHR 0x27] @ p @ [CHR 0x27] @ '' deleted successfully!'', st2))"

section \<open>The dispatcher\<close>

text \<open>
  \<^verbatim>\<open>random.choice\<close>: an empty sequence raises before anything is drawn; otherwise the
  element at an index below the length, here the drawn number reduced modulo the length.
\<close>

definition random_choice :: "nat \<Rightarrow> 'a list \<Rightarrow> error + 'a" where
  "random_choice r xs = (if xs = [] then Inl IndexError else Inr (xs ! (r mod length xs)))"

text \<open>
  \<^verbatim>\<open>create_response\<close> followed by the choice of the keyword of \<^verbatim>\<open>channel.send\<close>: a
  string is sent as text, anything else as embed.
\<close>

definition create_response :: "response \<Rightarrow> emission" where
  "create_response response_data =
     (if rtype response_data = ''text'' then Send_text (rcontent response_data)
      else if rtype response_data = ''embed'' then Send_embed (Some (rcontent response_data))
      else Send_embed None)"

text \<open>
  One iteration of the loop over the rows of \<^verbatim>\<open>SELECT * FROM triggers\<close>. The trigger is
  looked up again by the row's pattern; \<^verbatim>\<open>None\<close> there makes the subscript in
  \<^verbatim>\<open>match_trigger\<close> raise. The result says whether the loop goes on (\<open>None\<close>) or an
  exception left it.
\<close>

definition on_message_row :: "pyenv \<Rightarrow> message \<Rightarrow> trigger \<Rightarrow> state \<Rightarrow> error option \<times> state" where
  "on_message_row env msg row st =
     (case get_trigger (pattern row) st of
        (None, st1) \<Rightarrow> (Some TypeError, st1)
      | (Some trig, st1) \<Rightarrow>
          (case match_trigger env trig (content msg) of
             Inl e \<Rightarrow> (Some e, st1)
           | Inr False \<Rightarrow> (None, st1)
           | Inr True \<Rightarrow>
               if \<not> passes_filters trig msg then (None, st1)
               else
                 (case random_choice (rand env (tick st1)) (responses trig) of
                    Inl e \<Rightarrow> (Some e, st1)
                  | Inr response_data \<Rightarrow>
                      (None,
                       st1\<lparr>logs := logs st1 @
                              [\<lparr>trigger_id = tid trig, user_id = author_id msg,
                                log_channel_id = channel_id msg,
                                timestamp = utcnow env (Suc (tick st1))\<rparr>],
                           sent := sent st1 @ [(channel_id msg, create_response response_data)],
                           tick := Suc (Suc (tick st1))\<rparr>))))"

fun on_message_rows :: "pyenv \<Rightarrow> message \<Rightarrow> trigger list \<Rightarrow> state \<Rightarrow> error option \<times> state" where
  "on_message_rows env msg [] st = (None, st)"
| "on_message_rows env msg (row # rows) st =
     (case on_message_row env msg row st of
        (Some e, st1) \<Rightarrow> (Some e, st1)
      | (None, st1) \<Rightarrow> on_message_rows env msg rows st1)"

definition on_message :: "pyenv \<Rightarrow> message \<Rightarrow> state \<Rightarrow> error option \<times> state" where
  "on_message env msg st =
     (if author_bot msg then (None, st) else on_message_rows env msg (triggers st) st)"

section \<open>Notions used to state the properties\<close>

text \<open>The trigger that \<^verbatim>\<open>get_trigger\<close> returns for a pattern in a state.\<close>

definition resolve :: "state \<Rightarrow> string \<Rightarrow> trigger option" where
  "resolve st p = fst (get_trigger p st)"

text \<open>
  A trigger fires for a message when \<^verbatim>\<open>match_trigger\<close> returns \<^verbatim>\<open>True\<close> and none of the
  four guards skips the iteration.
\<close>

definition fires :: "pyenv \<Rightarrow> message \<Rightarrow> trigger \<Rightarrow> bool" where
  "fires env msg trig \<longleftrightarrow>
     match_trigger env trig (content msg) = Inr True \<and> passes_filters trig msg"

text \<open>
  What a pass over one message left behind, read off the two states around it: the rows
  of \<^verbatim>\<open>logs\<close> and the calls of \<^verbatim>\<open>send\<close> that were there before are untouched, and
  the new ones are, in order, one ledger row and one response for each trigger of the list
  \<open>fired\<close>: the row carries the trigger's id, the author and the channel of the message,
  and the response is built from one of the trigger's responses and goes to the channel of
  the message.
\<close>

definition pass_fired :: "message \<Rightarrow> state \<Rightarrow> state \<Rightarrow> trigger list \<Rightarrow> bool" where
  "pass_fired msg st st' fired \<longleftrightarrow>
     take (length (logs st)) (logs st') = logs st \<and>
     take (length (sent st)) (sent st') = sent st \<and>
     list_all2 (\<lambda>l t. trigger_id l = tid t \<and> user_id l = author_id msg \<and>
                       log_channel_id l = channel_id msg)
       (drop (length (logs st)) (logs st')) fired \<and>
     list_all2 (\<lambda>s t. fst s = channel_id msg \<and> snd s \<in> create_response ` set (responses t))
       (drop (length (sent st)) (sent st')) fired"

text \<open>
  The invariant of the store and its cache: row ids are unique (the column is the primary
  key), and a cache entry is a row of the table, filed under its own pattern.
\<close>

definition store_ok :: "state \<Rightarrow> bool" where
  "store_ok st \<longleftrightarrow>
     distinct (map tid (triggers st)) \<and>
     (\<forall>p t. cache st p = Some t \<longrightarrow> pattern t = p \<and> t \<in> set (triggers st))"

text \<open>
  The four checks of the filter pipeline, each as the specification words it: a scope that
  is empty admits everything, the blacklist excludes its members, a whitelist that is not
  empty admits only its members.
\<close>

definition channel_check :: "trigger \<Rightarrow> message \<Rightarrow> bool" where
  "channel_check trig msg \<longleftrightarrow> channels trig = [] \<or> channel_id msg \<in> set (channels trig)"

definition role_check :: "trigger \<Rightarrow> message \<Rightarrow> bool" where
  "role_check trig msg \<longleftrightarrow>
     roles trig = [] \<or> (\<exists>role \<in> set (author_roles msg). role \<in> set (roles trig))"

definition blacklist_check :: "trigger \<Rightarrow> message \<Rightarrow> bool" where
  "blacklist_check trig msg \<longleftrightarrow> author_id msg \<notin> set (blacklist_users trig)"

definition whitelist_check :: "trigger \<Rightarrow> message \<Rightarrow> bool" where
  "whitelist_check trig msg \<longleftrightarrow>
     whitelist_users trig = [] \<or> author_id msg \<in> set (whitelist_users trig)"

section \<open>A sample runtime\<close>

text \<open>
  A runtime to evaluate the cog on concrete inputs. \<open>char_lower\<close> is \<^verbatim>\<open>str.lower\<close> on one
  code point below 256: the letters A to Z and the capital letters of Latin-1 move up by 32.
\<close>

definition char_lower :: "char \<Rightarrow> char" where
  "char_lower c =
     (let n = (of_char c :: nat)
      in if (65 \<le> n \<and> n \<le> 90) \<or> (192 \<le> n \<and> n \<le> 222 \<and> n \<noteq> 215) then char_of (n + 32) else c)"

text \<open>
  The fragment of \<^verbatim>\<open>re\<close> made of literal patterns: ordinary characters, and a backslash
  followed by one character. After a backslash, \<^verbatim>\<open>a f n r t v\<close> stand for their control
  character, a character that is neither an ASCII letter nor a digit stands for itself, and
  an ASCII letter with no meaning is the error \<^verbatim>\<open>bad escape\<close>, as is a backslash at the end.
  \<open>re_literal\<close> returns the text such a pattern stands for, \<open>Some None\<close> for a pattern the
  compiler rejects, and \<open>None\<close> for a pattern outside the fragment (a metacharacter, or a
  backslash before a digit or before one of the letters that name a character class, a
  position or a numeric escape).
\<close>

definition re_metachars :: "char list" where
  "re_metachars = ''.^$*+?{}[]|()''"

definition is_ascii_letter :: "char \<Rightarrow> bool" where
  "is_ascii_letter c =
     (let n = (of_char c :: nat) in (65 \<le> n \<and> n \<le> 90) \<or> (97 \<le> n \<and> n \<le> 122))"

definition is_ascii_digit :: "char \<Rightarrow> bool" where
  "is_ascii_digit c = (let n = (of_char c :: nat) in 48 \<le> n \<and> n \<le> 57)"

definition re_escape :: "char \<Rightarrow> char option option" where
  "re_escape c =
     (if c = CHR ''a'' then Some (Some (CHR 0x07))
      else if c = CHR ''f'' then Some (Some (CHR 0x0C))
      else if c = CHR ''n'' then Some (Some (CHR 0x0A))
      else if c = CHR ''r'' then Some (Some (CHR 0x0D))
      else if c = CHR ''t'' then Some (Some (CHR 0x09))
      else if c = CHR ''v'' then Some (Some (CHR 0x0B))
      else if c \<in> set ''AbBdDsSwWZzxuUN'' \<or> is_ascii_digit c then None
      else if is_ascii_letter c then Some None
      else Some (Some c))"

fun re_literal :: "string \<Rightarrow> string option option" where
  "re_literal [] = Some (Some [])"
| "re_literal (c # cs) =
     (if c = CHR 0x5C then
        (case cs of
           [] \<Rightarrow> Some None
         | e # rest \<Rightarrow>
             (case re_escape e of
                None \<Rightarrow> None
              | Some None \<Rightarrow> Some None
              | Some (Some x) \<Rightarrow>
                  (case re_literal rest of
                     None \<Rightarrow> None
                   | Some None \<Rightarrow> Some None
                   | Some (Some lit) \<Rightarrow> Some (Some (x # lit)))))
      else if c \<in> set re_metachars then None
      else
        (case re_literal cs of
           None \<Rightarrow> None
         | Some None \<Rightarrow> Some None
         | Some (Some lit) \<Rightarrow> Some (Some (c # lit))))"

text \<open>
  The search of the sample runtime: a literal pattern is found where its text occurs; a
  pattern outside the fragment is answered with \<open>Re_other\<close>, and no statement below
  evaluates one.
\<close>

definition sample_re_search :: "string \<Rightarrow> string \<Rightarrow> re_outcome" where
  "sample_re_search p s =
     (case re_literal p of
        Some (Some lit) \<Rightarrow> Found (str_contains lit s)
      | Some None \<Rightarrow> Re_error
      | None \<Rightarrow> Re_other)"

definition sample_env :: pyenv where
  "sample_env = \<lparr>str_lower = map char_lower, re_search = sample_re_search,
                 rand = (\<lambda>n. n), utcnow = (\<lambda>n. 1000 + n)\<rparr>"

definition init_state :: state where
  "init_state = \<lparr>cache = Map.empty, triggers = [], logs = [], sent = [], tick = 0\<rparr>"

text \<open>
  The states the cog gets into from a fresh database: by the two commands, by messages,
  and by a restart of the process, which empties the cache and keeps the database.
\<close>

inductive reachable :: "pyenv \<Rightarrow> state \<Rightarrow> bool" for env :: pyenv where
  reach_init: "reachable env init_state"
| reach_add: "reachable env st \<Longrightarrow> reachable env (snd (add_trigger env pat resp mtype st))"
| reach_delete: "reachable env st \<Longrightarrow> reachable env (snd (delete_trigger p st))"
| reach_message: "reachable env st \<Longrightarrow> reachable env (snd (on_message env msg st))"
| reach_restart: "reachable env st \<Longrightarrow> reachable env (st\<lparr>cache := Map.empty\<rparr>)"

text \<open>Sample inputs: a trigger with no scope, and a message of a user in channel 7.\<close>

definition basic_trigger :: "int \<Rightarrow> string \<Rightarrow> string \<Rightarrow> bool \<Rightarrow> string \<Rightarrow> trigger" where
  "basic_trigger i p mtype cs resp =
     \<lparr>tid = i, pattern = p, match_type = mtype, case_sensitive = cs,
      responses = [\<lparr>rtype = ''text'', rcontent = resp\<rparr>], cooldown = 0,
      channels = [], roles = [], blacklist_users = [], whitelist_users = [],
      creator_id = 1, created_at = 0\<rparr>"

definition user_message :: "string \<Rightarrow> int \<Rightarrow> message" where
  "user_message txt uid =
     \<lparr>content = txt, author_bot = False, author_id = uid, author_roles = [], channel_id = 7\<rparr>"

definition store_of :: "trigger list \<Rightarrow> state" where
  "store_of rows = \<lparr>cache = Map.empty, triggers = rows, logs = [], sent = [], tick = 0\<rparr>"

section \<open>Lemmas on the matcher\<close>

lemma str_contains_iff: "str_contains p s \<longleftrightarrow> (\<exists>ps ss. s = ps @ p @ ss)"
proof (induction s)
  case Nil
  then show ?case by auto
next
  case (Cons c cs)
  show ?case
  proof
    assume "str_contains p (c # cs)"
    then consider "prefix p (c # cs)" | "str_contains p cs" by auto
    then show "\<exists>ps ss. c # cs = ps @ p @ ss"
    proof cases
      case 1
      then obtain ss where "c # cs = p @ ss" by (auto simp: prefix_def)
      then have "c # cs = [] @ p @ ss" by simp
      then show ?thesis by blast
    next
      case 2
      with Cons.IH obtain ps ss where "cs = ps @ p @ ss" by blast
      then have "c # cs = (c # ps) @ p @ ss" by simp
      then show ?thesis by blast
    qed
  next
    assume "\<exists>ps ss. c # cs = ps @ p @ ss"
    then obtain ps ss where eq: "c # cs = ps @ p @ ss" by blast
    show "str_contains p (c # cs)"
    proof (cases ps)
      case Nil
      with eq have "prefix p (c # cs)" by (simp add: prefix_def)
      then show ?thesis by simp
    next
      case (Cons a ps')
      with eq have "cs = ps' @ p @ ss" by simp
      with Cons.IH have "str_contains p cs" by blast
      then show ?thesis by simp
    qed
  qed
qed

lemma match_trigger_Inl: "match_trigger env t s = Inl e \<Longrightarrow> e = ReRaised"
  by (auto simp: match_trigger_def Let_def split: if_splits re_outcome.splits)

section \<open>Lemmas on the cache lookup\<close>

lemma resolve_eq:
  "resolve st p = (case cache st p of Some t \<Rightarrow> Some t | None \<Rightarrow> fetchone_by_pattern p (triggers st))"
  by (simp add: resolve_def get_trigger_def split: option.splits)

lemma get_trigger_frame:
  "triggers (snd (get_trigger p st)) = triggers st"
  "logs (snd (get_trigger p st)) = logs st"
  "sent (snd (get_trigger p st)) = sent st"
  "tick (snd (get_trigger p st)) = tick st"
  by (simp_all add: get_trigger_def split: option.splits)

lemma get_trigger_resolve: "resolve (snd (get_trigger p st)) q = resolve st q"
  by (simp add: resolve_eq get_trigger_def split: option.splits)

lemma fetchone_Some: "fetchone_by_pattern p rows = Some t \<Longrightarrow> t \<in> set rows \<and> pattern t = p"
  by (auto simp: fetchone_by_pattern_def find_Some_iff)

lemma fetchone_None: "fetchone_by_pattern p rows = None \<longleftrightarrow> (\<forall>r \<in> set rows. pattern r \<noteq> p)"
  by (auto simp: fetchone_by_pattern_def find_None_iff)

lemma resolve_row: "row \<in> set (triggers st) \<Longrightarrow> \<exists>t. resolve st (pattern row) = Some t"
  by (cases "fetchone_by_pattern (pattern row) (triggers st)")
     (auto simp: resolve_eq fetchone_None split: option.splits)

lemma resolve_in_store:
  "store_ok st \<Longrightarrow> resolve st p = Some t \<Longrightarrow> t \<in> set (triggers st) \<and> pattern t = p"
  by (auto simp: resolve_eq store_ok_def split: option.splits dest: fetchone_Some)

lemma pass_firedI:
  assumes "logs st' = logs st @ nl" "sent st' = sent st @ ns"
    and "list_all2 (\<lambda>l t. trigger_id l = tid t \<and> user_id l = author_id msg \<and> log_channel_id l = channel_id msg) nl fired"
    and "list_all2 (\<lambda>s t. fst s = channel_id msg \<and> snd s \<in> create_response ` set (responses t)) ns fired"
  shows "pass_fired msg st st' fired"
  using assms by (simp add: pass_fired_def)

lemma pass_firedE:
  assumes "pass_fired msg st st' fired"
  obtains nl ns where "logs st' = logs st @ nl" "sent st' = sent st @ ns"
    "list_all2 (\<lambda>l t. trigger_id l = tid t \<and> user_id l = author_id msg \<and> log_channel_id l = channel_id msg) nl fired"
    "list_all2 (\<lambda>s t. fst s = channel_id msg \<and> snd s \<in> create_response ` set (responses t)) ns fired"
proof -
  from assms have a: "logs st' = logs st @ drop (length (logs st)) (logs st')"
    and b: "sent st' = sent st @ drop (length (sent st)) (sent st')"
    unfolding pass_fired_def by (metis append_take_drop_id)+
  from assms show thesis
    unfolding pass_fired_def by (intro that[OF a b]) simp_all
qed

lemma pass_fired_refl: "pass_fired msg st st []"
  by (simp add: pass_fired_def)

lemma pass_fired_trans:
  assumes "pass_fired msg st st1 f1" "pass_fired msg st1 st2 f2"
  shows "pass_fired msg st st2 (f1 @ f2)"
proof -
  from assms(1) obtain nl1 ns1 where 1: "logs st1 = logs st @ nl1" "sent st1 = sent st @ ns1"
    "list_all2 (\<lambda>l t. trigger_id l = tid t \<and> user_id l = author_id msg \<and> log_channel_id l = channel_id msg) nl1 f1"
    "list_all2 (\<lambda>s t. fst s = channel_id msg \<and> snd s \<in> create_response ` set (responses t)) ns1 f1"
    by (rule pass_firedE)
  from assms(2) obtain nl2 ns2 where 2: "logs st2 = logs st1 @ nl2" "sent st2 = sent st1 @ ns2"
    "list_all2 (\<lambda>l t. trigger_id l = tid t \<and> user_id l = author_id msg \<and> log_channel_id l = channel_id msg) nl2 f2"
    "list_all2 (\<lambda>s t. fst s = channel_id msg \<and> snd s \<in> create_response ` set (responses t)) ns2 f2"
    by (rule pass_firedE)
  show ?thesis
  proof (rule pass_firedI)
    show "logs st2 = logs st @ (nl1 @ nl2)" using 1 2 by simp
    show "sent st2 = sent st @ (ns1 @ ns2)" using 1 2 by simp
  qed (use 1 2 in \<open>auto intro: list_all2_appendI\<close>)
qed

section \<open>Lemmas on the dispatcher loop\<close>

text \<open>One iteration, when the lookup returns a trigger.\<close>

lemma row_step:
  assumes "resolve st (pattern row) = Some t"
  shows "\<exists>st'. on_message_row env msg row st =
           ((case match_trigger env t (content msg) of
               Inl err \<Rightarrow> Some err
             | Inr b \<Rightarrow> if fires env msg t \<and> responses t = [] then Some IndexError else None), st') \<and>
          triggers st' = triggers st \<and> resolve st' = resolve st \<and>
          pass_fired msg st st' (filter (\<lambda>u. fires env msg u \<and> responses u \<noteq> []) [t])"
proof -
  obtain st1 where g: "get_trigger (pattern row) st = (Some t, st1)"
    using assms by (cases "get_trigger (pattern row) st") (simp add: resolve_def)
  then have st1: "st1 = snd (get_trigger (pattern row) st)" by simp
  have fr: "triggers st1 = triggers st" "logs st1 = logs st" "sent st1 = sent st"
    "resolve st1 = resolve st"
    unfolding st1 by (simp_all add: get_trigger_frame get_trigger_resolve fun_eq_iff)
  have r2: "\<And>a b c. resolve (st1\<lparr>logs := a, sent := b, tick := c\<rparr>) = resolve st1"
    by (rule ext) (simp add: resolve_eq split: option.splits)
  show ?thesis
  proof (cases "match_trigger env t (content msg)")
    case (Inl err)
    then show ?thesis using g fr
      by (simp add: on_message_row_def fires_def pass_fired_def)
  next
    case (Inr b)
    show ?thesis
    proof (cases "fires env msg t")
      case False
      then show ?thesis using g fr Inr
        by (cases b) (auto simp: on_message_row_def fires_def pass_fired_def)
    next
      case True
      then have b: "b = True" and pf: "passes_filters t msg" using Inr by (simp_all add: fires_def)
      show ?thesis
      proof (cases "responses t = []")
        case True
        then show ?thesis using g fr Inr b pf \<open>fires env msg t\<close>
          by (simp add: on_message_row_def random_choice_def pass_fired_def)
      next
        case False
        then have "rand env (tick st1) mod length (responses t) < length (responses t)" by simp
        then have mem: "responses t ! (rand env (tick st1) mod length (responses t)) \<in> set (responses t)"
          by (rule nth_mem)
        show ?thesis using g fr Inr b pf \<open>fires env msg t\<close> False mem
          by (simp add: on_message_row_def random_choice_def pass_fired_def r2)
      qed
    qed
  qed
qed

lemma row_step_None:
  assumes "resolve st (pattern row) = None"
  shows "on_message_row env msg row st = (Some TypeError, st)"
  using assms by (auto simp: on_message_row_def resolve_def get_trigger_def split: option.splits)

lemma rows_sound:
  "on_message_rows env msg rows st = (e, st') \<Longrightarrow>
   triggers st' = triggers st \<and> resolve st' = resolve st \<and>
   (\<exists>fired. pass_fired msg st st' fired \<and>
      (\<forall>t \<in> set fired. fires env msg t \<and> (\<exists>r \<in> set rows. resolve st (pattern r) = Some t)))"
proof (induction rows arbitrary: st)
  case Nil
  then show ?case by (auto intro: exI[of _ "[]"] simp: pass_fired_refl)
next
  case (Cons row rows)
  show ?case
  proof (cases "resolve st (pattern row)")
    case None
    with Cons.prems have "e = Some TypeError" "st' = st" by (simp_all add: row_step_None)
    then show ?thesis by (auto intro: exI[of _ "[]"] simp: pass_fired_refl)
  next
    case (Some t)
    let ?e1 = "case match_trigger env t (content msg) of Inl err \<Rightarrow> Some err
               | Inr b \<Rightarrow> if fires env msg t \<and> responses t = [] then Some IndexError else None"
    let ?f1 = "filter (\<lambda>u. fires env msg u \<and> responses u \<noteq> []) [t]"
    from row_step[OF Some, of env msg] obtain st1 where
      step: "on_message_row env msg row st = (?e1, st1)"
      and fr: "triggers st1 = triggers st" "resolve st1 = resolve st"
      and pf: "pass_fired msg st st1 ?f1"
      by blast
    have f1: "\<forall>u \<in> set ?f1. fires env msg u \<and> (\<exists>r \<in> set (row # rows). resolve st (pattern r) = Some u)"
      using Some by simp
    show ?thesis
    proof (cases ?e1)
      case (Some err)
      with step Cons.prems have "e = Some err" "st' = st1" by simp_all
      have "triggers st' = triggers st" "resolve st' = resolve st" using fr \<open>st' = st1\<close> by simp_all
      moreover have "pass_fired msg st st' ?f1" using pf \<open>st' = st1\<close> by simp
      ultimately show ?thesis using f1 by blast
    next
      case None
      with step Cons.prems have rest: "on_message_rows env msg rows st1 = (e, st')" by simp
      from Cons.IH[OF rest] obtain f2 where
        a: "triggers st' = triggers st1" "resolve st' = resolve st1"
        and b: "pass_fired msg st1 st' f2"
        and c: "\<forall>u \<in> set f2. fires env msg u \<and> (\<exists>r \<in> set rows. resolve st1 (pattern r) = Some u)"
        by blast
      have p: "pass_fired msg st st' (?f1 @ f2)" using pf b by (rule pass_fired_trans)
      have q: "\<forall>u \<in> set (?f1 @ f2). fires env msg u \<and> (\<exists>r \<in> set (row # rows). resolve st (pattern r) = Some u)"
      proof
        fix u assume "u \<in> set (?f1 @ f2)"
        then consider "u \<in> set ?f1" | "u \<in> set f2" by auto
        then show "fires env msg u \<and> (\<exists>r \<in> set (row # rows). resolve st (pattern r) = Some u)"
        proof cases
          case 1
          then show ?thesis using f1 by blast
        next
          case 2
          with c have "fires env msg u" and "\<exists>r \<in> set rows. resolve st1 (pattern r) = Some u" by auto
          then show ?thesis using fr(2) by auto
        qed
      qed
      have "triggers st' = triggers st" "resolve st' = resolve st" using a fr by simp_all
      then show ?thesis using p q by blast
    qed
  qed
qed

lemma rows_exact:
  assumes "list_all2 (\<lambda>r t. resolve st (pattern r) = Some t) rows ts"
    and "\<forall>t \<in> set ts. responses t \<noteq> [] \<and> match_trigger env t (content msg) \<noteq> Inl ReRaised"
  shows "\<exists>st'. on_message_rows env msg rows st = (None, st') \<and>
           pass_fired msg st st' (filter (fires env msg) ts)"
  using assms
proof (induction rows arbitrary: st ts)
  case Nil
  then show ?case by (simp add: pass_fired_refl)
next
  case (Cons row rows)
  from Cons.prems(1) obtain t ts' where ts: "ts = t # ts'"
    and res: "resolve st (pattern row) = Some t"
    and rest_res: "list_all2 (\<lambda>r t. resolve st (pattern r) = Some t) rows ts'"
    by (auto simp: list_all2_Cons1)
  have ok: "responses t \<noteq> []" "match_trigger env t (content msg) \<noteq> Inl ReRaised"
    using Cons.prems(2) ts by simp_all
  have e1: "(case match_trigger env t (content msg) of Inl err \<Rightarrow> Some err
             | Inr b \<Rightarrow> if fires env msg t \<and> responses t = [] then Some IndexError else None) = None"
    using ok by (auto split: sum.splits dest: match_trigger_Inl)
  from row_step[OF res, of env msg, unfolded e1] obtain st1 where
    step: "on_message_row env msg row st = (None, st1)"
    and fr: "resolve st1 = resolve st"
    and pf: "pass_fired msg st st1 (filter (\<lambda>u. fires env msg u \<and> responses u \<noteq> []) [t])"
    by blast
  have "list_all2 (\<lambda>r t. resolve st1 (pattern r) = Some t) rows ts'"
    using rest_res fr by simp
  moreover have "\<forall>t \<in> set ts'. responses t \<noteq> [] \<and> match_trigger env t (content msg) \<noteq> Inl ReRaised"
    using Cons.prems(2) ts by simp
  ultimately have "\<exists>st'. on_message_rows env msg rows st1 = (None, st') \<and>
           pass_fired msg st1 st' (filter (fires env msg) ts')"
    by (rule Cons.IH)
  then obtain st' where rest: "on_message_rows env msg rows st1 = (None, st')"
    and pf2: "pass_fired msg st1 st' (filter (fires env msg) ts')"
    by blast
  have "pass_fired msg st st' (filter (\<lambda>u. fires env msg u \<and> responses u \<noteq> []) [t] @ filter (fires env msg) ts')"
    using pf pf2 by (rule pass_fired_trans)
  then have "pass_fired msg st st' (filter (fires env msg) ts)"
    using ok ts by (cases "fires env msg t") simp_all
  moreover have "on_message_rows env msg (row # rows) st = (None, st')"
    using step rest by simp
  ultimately show ?case by blast
qed

lemma resolved_exists:
  assumes "set rows \<subseteq> set (triggers st)"
  shows "\<exists>ts. list_all2 (\<lambda>r t. resolve st (pattern r) = Some t) rows ts"
  using assms
proof (induction rows)
  case Nil
  then show ?case by simp
next
  case (Cons r rows)
  then obtain ts where ts: "list_all2 (\<lambda>r t. resolve st (pattern r) = Some t) rows ts" by auto
  have "r \<in> set (triggers st)" using Cons.prems by simp
  from resolve_row[OF this] obtain t where "resolve st (pattern r) = Some t" by blast
  with ts have "list_all2 (\<lambda>r t. resolve st (pattern r) = Some t) (r # rows) (t # ts)" by simp
  then show ?case by (rule exI)
qed

lemma distinct_pattern_find:
  "distinct (map pattern rows) \<Longrightarrow> r \<in> set rows \<Longrightarrow> fetchone_by_pattern (pattern r) rows = Some r"
  by (induction rows) (auto simp: fetchone_by_pattern_def)

lemma resolve_self:
  assumes "store_ok st" "distinct (map pattern (triggers st))" "r \<in> set (triggers st)"
  shows "resolve st (pattern r) = Some r"
proof (cases "cache st (pattern r)")
  case None
  then show ?thesis using assms by (simp add: resolve_eq distinct_pattern_find)
next
  case (Some t)
  then have "pattern t = pattern r" "t \<in> set (triggers st)" using assms(1) by (auto simp: store_ok_def)
  then have "t = r" using assms(2,3) by (meson distinct_map inj_onD)
  then show ?thesis using Some by (simp add: resolve_eq)
qed

lemma pass_fired_Nil: "pass_fired msg st st' [] \<Longrightarrow> logs st' = logs st \<and> sent st' = sent st"
  by (elim pass_firedE) simp

lemma list_all2_rangeD:
  "list_all2 P xs ys \<Longrightarrow> y \<in> set ys \<Longrightarrow> \<exists>x \<in> set xs. P x y"
  by (induction rule: list_all2_induct) auto

lemma on_message_sound:
  "triggers (snd (on_message env msg st)) = triggers st \<and>
   (\<exists>fired. pass_fired msg st (snd (on_message env msg st)) fired \<and>
      (\<forall>t \<in> set fired. fires env msg t \<and>
         (\<exists>r \<in> set (triggers st). resolve st (pattern r) = Some t)))"
proof (cases "author_bot msg")
  case True
  then have "snd (on_message env msg st) = st" by (simp add: on_message_def)
  then show ?thesis using pass_fired_refl[of msg st] by (auto intro: exI[of _ "[]"])
next
  case False
  then have "on_message_rows env msg (triggers st) st =
      (fst (on_message env msg st), snd (on_message env msg st))"
    by (simp add: on_message_def)
  from rows_sound[OF this] show ?thesis by simp
qed

lemma on_message_triggers: "triggers (snd (on_message env msg st)) = triggers st"
  using on_message_sound[of env msg st] by simp

section \<open>The invariant of store and cache is kept by every operation\<close>

lemma store_ok_cong:
  "cache st' = cache st \<Longrightarrow> triggers st' = triggers st \<Longrightarrow> store_ok st' = store_ok st"
  by (simp add: store_ok_def)

lemma store_ok_init: "store_ok init_state"
  by (simp add: store_ok_def init_state_def)

lemma store_ok_get_trigger: "store_ok st \<Longrightarrow> store_ok (snd (get_trigger p st))"
  by (auto simp: store_ok_def get_trigger_def split: option.splits dest: fetchone_Some)

lemma on_message_row_cache:
  "cache (snd (on_message_row env msg row st)) = cache (snd (get_trigger (pattern row) st))"
  "triggers (snd (on_message_row env msg row st)) = triggers st"
  by (auto simp: on_message_row_def get_trigger_def split: prod.splits option.splits sum.splits bool.splits)

lemma store_ok_row: "store_ok st \<Longrightarrow> store_ok (snd (on_message_row env msg row st))"
proof -
  assume ok: "store_ok st"
  have "store_ok (snd (on_message_row env msg row st)) = store_ok (snd (get_trigger (pattern row) st))"
    by (rule store_ok_cong) (simp_all add: on_message_row_cache get_trigger_frame)
  then show ?thesis using store_ok_get_trigger[OF ok] by simp
qed

lemma store_ok_rows: "store_ok st \<Longrightarrow> store_ok (snd (on_message_rows env msg rows st))"
proof (induction rows arbitrary: st)
  case Nil
  then show ?case by simp
next
  case (Cons row rows)
  obtain e st1 where s: "on_message_row env msg row st = (e, st1)" by (cases "on_message_row env msg row st")
  then have ok1: "store_ok st1" using store_ok_row[OF Cons.prems, of env msg row] by simp
  show ?case
  proof (cases e)
    case None
    then show ?thesis using s Cons.IH[OF ok1] by simp
  next
    case (Some a)
    then show ?thesis using s ok1 by simp
  qed
qed

lemma store_ok_on_message: "store_ok st \<Longrightarrow> store_ok (snd (on_message env msg st))"
  by (simp add: on_message_def store_ok_rows)

lemma fold_max_ge: "(a::int) \<le> fold max xs a \<and> (\<forall>x \<in> set xs. x \<le> fold max xs a)"
proof (induction xs arbitrary: a)
  case Nil
  then show ?case by simp
next
  case (Cons x xs)
  have "max x a \<le> fold max xs (max x a)" and "\<forall>y \<in> set xs. y \<le> fold max xs (max x a)"
    using Cons.IH[of "max x a"] by simp_all
  then show ?case by auto
qed

lemma next_id_fresh: "row \<in> set rows \<Longrightarrow> tid row < next_id rows"
proof (cases rows)
  case Nil
  assume "row \<in> set rows"
  with Nil show ?thesis by simp
next
  case (Cons r rest)
  assume "row \<in> set rows"
  then have "tid row = tid r \<or> tid row \<in> set (map tid rest)" using Cons by auto
  then have "tid row \<le> fold max (map tid rest) (tid r)"
    using fold_max_ge[of "tid r" "map tid rest"] by auto
  then show ?thesis using Cons by (simp add: next_id_def)
qed

lemma store_ok_add_db: "store_ok st \<Longrightarrow> store_ok (add_trigger_to_db env d st)"
  by (auto simp: store_ok_def add_trigger_to_db_def dest: next_id_fresh)

lemma store_ok_add: "store_ok st \<Longrightarrow> store_ok (snd (add_trigger env pat resp mtype st))"
  by (simp add: add_trigger_def store_ok_add_db)

lemma delete_trigger_fields:
  "triggers (snd (delete_trigger p st)) = filter (\<lambda>row. pattern row \<noteq> p) (triggers st)"
  "cache (snd (delete_trigger p st)) = (cache st)(p := None)"
  "logs (snd (delete_trigger p st)) = logs st"
  "sent (snd (delete_trigger p st)) = sent st"
  "tick (snd (delete_trigger p st)) = tick st"
  by (auto simp: delete_trigger_def Let_def fun_eq_iff)

lemma store_ok_delete: "store_ok st \<Longrightarrow> store_ok (snd (delete_trigger p st))"
  by (auto simp: store_ok_def delete_trigger_fields distinct_map_filter)

lemma reachable_store_ok: "reachable env st \<Longrightarrow> store_ok st"
proof (induction rule: reachable.induct)
  case reach_init
  show ?case by (rule store_ok_init)
next
  case (reach_add st pat resp mtype)
  then show ?case by (simp add: store_ok_add)
next
  case (reach_delete st p)
  then show ?case by (simp add: store_ok_delete)
next
  case (reach_message st msg)
  then show ?case by (simp add: store_ok_on_message)
next
  case (reach_restart st)
  then show ?case by (simp add: store_ok_def)
qed

lemma reachable_single_response:
  "reachable env st \<Longrightarrow> \<forall>t \<in> set (triggers st). \<exists>c. responses t = [\<lparr>rtype = ''text'', rcontent = c\<rparr>]"
proof (induction rule: reachable.induct)
  case reach_init
  show ?case by (simp add: init_state_def)
next
  case (reach_add st pat resp mtype)
  then show ?case by (auto simp: add_trigger_def add_trigger_to_db_def)
next
  case (reach_delete st p)
  then show ?case by (simp add: delete_trigger_fields)
next
  case (reach_message st msg)
  then show ?case by (simp add: on_message_triggers)
next
  case (reach_restart st)
  then show ?case by simp
qed

section \<open>Lemmas on the filter checks and on deletion\<close>

lemma passes_filters_iff:
  "passes_filters trig msg \<longleftrightarrow>
     channel_check trig msg \<and> role_check trig msg \<and> blacklist_check trig msg \<and> whitelist_check trig msg"
  by (auto simp: passes_filters_def channel_check_def role_check_def blacklist_check_def
      whitelist_check_def list_ex_iff)

lemma delete_trigger_reply:
  "fst (delete_trigger p st) = ''Trigger '' @ [CHR 0x27] @ p @ [CHR 0x27] @ '' deleted successfully!''"
  by (simp add: delete_trigger_def Let_def)

lemma state_eqI:
  "cache (a::state) = cache b \<Longrightarrow> triggers a = triggers b \<Longrightarrow> logs a = logs b \<Longrightarrow>
   sent a = sent b \<Longrightarrow> tick a = tick b \<Longrightarrow> a = b"
  by simp

lemma delete_trigger_idem:
  "snd (delete_trigger p (snd (delete_trigger p st))) = snd (delete_trigger p st)"
  by (rule state_eqI) (simp_all add: delete_trigger_fields)

lemma delete_trigger_absent:
  assumes "store_ok st" "\<forall>row \<in> set (triggers st). pattern row \<noteq> p"
  shows "snd (delete_trigger p st) = st"
proof -
  have "cache st p = None"
  proof (cases "cache st p")
    case (Some t)
    with assms show ?thesis by (auto simp: store_ok_def)
  qed simp
  then have "(cache st)(p := None) = cache st" by (simp add: fun_upd_idem)
  moreover have "filter (\<lambda>row. pattern row \<noteq> p) (triggers st) = triggers st"
    using assms(2) by (simp add: filter_id_conv)
  ultimately show ?thesis by (intro state_eqI) (simp_all add: delete_trigger_fields)
qed

section \<open>The matcher: exact, partial and regex triggers\<close>

text \<open>
  Claim C3. For a trigger with match type \<open>exact\<close> that is case sensitive,
  \<^verbatim>\<open>match_trigger\<close> returns \<^verbatim>\<open>True\<close> exactly when the message text equals the pattern,
  character for character; it raises nothing and is independent of the runtime.
\<close>

theorem exact_case_sensitive_match:
  "match_type trig = ''exact'' \<Longrightarrow> case_sensitive trig \<Longrightarrow>
   match_trigger env trig text = Inr (text = pattern trig)"
  by (simp add: match_trigger_def)

theorem exact_case_sensitive_match_witness:
  "match_type (basic_trigger 1 ''hello'' ''exact'' True ''hi!'') = ''exact'' \<and>
   case_sensitive (basic_trigger 1 ''hello'' ''exact'' True ''hi!'') \<and>
   match_trigger sample_env (basic_trigger 1 ''hello'' ''exact'' True ''hi!'') ''hello'' = Inr True \<and>
   match_trigger sample_env (basic_trigger 1 ''hello'' ''exact'' True ''hi!'') ''Hello'' = Inr False"
proof -
  have m: "match_type (basic_trigger 1 ''hello'' ''exact'' True ''hi!'') = ''exact''"
    and c: "case_sensitive (basic_trigger 1 ''hello'' ''exact'' True ''hi!'')"
    by (simp_all add: basic_trigger_def)
  show ?thesis
    using m c exact_case_sensitive_match[OF m c, of sample_env "''hello''"]
      exact_case_sensitive_match[OF m c, of sample_env "''Hello''"]
    by (simp add: basic_trigger_def)
qed

text \<open>
  Claim C8. For a trigger with match type \<open>partial\<close>, \<^verbatim>\<open>match_trigger\<close> returns
  \<^verbatim>\<open>True\<close> exactly when the pattern is a contiguous substring of the text, that is, when
  the text is some prefix, then the pattern, then some suffix. Both strings are taken as
  they are when the trigger is case sensitive, and both are lower-cased first when it is
  not.
\<close>

theorem partial_match:
  "match_type trig = ''partial'' \<Longrightarrow>
   match_trigger env trig text =
     Inr (\<exists>ps ss. (if case_sensitive trig then text else str_lower env text) =
                  ps @ (if case_sensitive trig then pattern trig else str_lower env (pattern trig)) @ ss)"
  by (simp add: match_trigger_def str_contains_iff)

theorem partial_match_witness:
  "match_type (basic_trigger 1 ''HELLO'' ''partial'' False ''hi!'') = ''partial'' \<and>
   match_trigger sample_env (basic_trigger 1 ''HELLO'' ''partial'' False ''hi!'') ''Say Hello'' = Inr True"
proof -
  let ?t = "basic_trigger 1 ''HELLO'' ''partial'' False ''hi!''"
  have m: "match_type ?t = ''partial''"
    by (simp add: basic_trigger_def)
  have a: "(if case_sensitive ?t then ''Say Hello'' else str_lower sample_env ''Say Hello'') = ''say hello''"
    by code_simp
  have b: "(if case_sensitive ?t then pattern ?t else str_lower sample_env (pattern ?t)) = ''hello''"
    by code_simp
  have "''say hello'' = ''say '' @ ''hello'' @ []" by simp
  then have ex: "\<exists>ps ss. ''say hello'' = ps @ ''hello'' @ ss" by blast
  show ?thesis
    using m partial_match[OF m, of sample_env "''Say Hello''"] ex unfolding a b by simp
qed

text \<open>
  Claim C4, amended. For a trigger with match type \<open>regex\<close>, when \<^verbatim>\<open>re.search\<close> rejects
  the pattern it is given with \<^verbatim>\<open>re.error\<close>, \<^verbatim>\<open>match_trigger\<close> returns \<^verbatim>\<open>False\<close> and
  raises nothing. The pattern given to \<^verbatim>\<open>re.search\<close> is the trigger's pattern when the
  trigger is case sensitive, and the lower-cased pattern when it is not.
\<close>

theorem regex_compile_error_is_no_match:
  "match_type trig = ''regex'' \<Longrightarrow>
   re_search env (if case_sensitive trig then pattern trig else str_lower env (pattern trig))
                 (if case_sensitive trig then text else str_lower env text) = Re_error \<Longrightarrow>
   match_trigger env trig text = Inr False"
  by (cases "case_sensitive trig") (simp_all add: match_trigger_def)

theorem regex_compile_error_is_no_match_witness:
  "match_type (basic_trigger 1 [CHR 0x5C, CHR ''T''] ''regex'' True ''hi!'') = ''regex'' \<and>
   re_search sample_env [CHR 0x5C, CHR ''T''] ''tea'' = Re_error \<and>
   match_trigger sample_env (basic_trigger 1 [CHR 0x5C, CHR ''T''] ''regex'' True ''hi!'') ''tea'' = Inr False"
proof -
  have m: "match_type (basic_trigger 1 [CHR 0x5C, CHR ''T''] ''regex'' True ''hi!'') = ''regex''"
    by (simp add: basic_trigger_def)
  have r: "re_search sample_env [CHR 0x5C, CHR ''T''] ''tea'' = Re_error"
    by code_simp
  have r': "re_search sample_env
      (if case_sensitive (basic_trigger 1 [CHR 0x5C, CHR ''T''] ''regex'' True ''hi!'')
       then pattern (basic_trigger 1 [CHR 0x5C, CHR ''T''] ''regex'' True ''hi!'')
       else str_lower sample_env (pattern (basic_trigger 1 [CHR 0x5C, CHR ''T''] ''regex'' True ''hi!'')))
      (if case_sensitive (basic_trigger 1 [CHR 0x5C, CHR ''T''] ''regex'' True ''hi!'')
       then ''tea'' else str_lower sample_env ''tea'') = Re_error"
    using r by (simp add: basic_trigger_def)
  show ?thesis
    using m r regex_compile_error_is_no_match[OF m r'] by simp
qed

text \<open>
  Claim C4 as stated fails for a trigger that is not case sensitive: the pattern made of a
  backslash and the letter \<open>T\<close> is rejected by the compiler (bad escape), but the matcher
  compiles its lower-cased form, backslash and \<open>t\<close>, which is valid and finds the tab
  character: the result is \<^verbatim>\<open>True\<close>.
\<close>

theorem invalid_regex_lowercased_counterexample:
  "match_type (basic_trigger 1 [CHR 0x5C, CHR ''T''] ''regex'' False ''hi!'') = ''regex'' \<and>
   re_search sample_env (pattern (basic_trigger 1 [CHR 0x5C, CHR ''T''] ''regex'' False ''hi!''))
     [CHR 0x09] = Re_error \<and>
   match_trigger sample_env (basic_trigger 1 [CHR 0x5C, CHR ''T''] ''regex'' False ''hi!'') [CHR 0x09]
     = Inr True"
  by code_simp

section \<open>The filter pipeline\<close>

text \<open>
  Claim C5. The outcome of the four guards of \<^verbatim>\<open>on_message\<close> is the conjunction of the
  four checks (channel scope, role scope, blacklist, whitelist), whichever of the scopes
  and lists are empty. In particular an author on the blacklist never passes, whatever the
  whitelist holds, and an iteration of the dispatcher whose trigger has the author on its
  blacklist appends no ledger row and sends nothing.
\<close>

theorem filter_pipeline_conjunction:
  "(passes_filters trig msg \<longleftrightarrow>
      channel_check trig msg \<and> role_check trig msg \<and> blacklist_check trig msg \<and>
      whitelist_check trig msg) \<and>
   (author_id msg \<in> set (blacklist_users trig) \<longrightarrow>
      \<not> passes_filters trig msg \<and>
      (\<forall>env row st. resolve st (pattern row) = Some trig \<longrightarrow>
         logs (snd (on_message_row env msg row st)) = logs st \<and>
         sent (snd (on_message_row env msg row st)) = sent st))"
proof (intro conjI impI allI)
  show "passes_filters trig msg \<longleftrightarrow>
      channel_check trig msg \<and> role_check trig msg \<and> blacklist_check trig msg \<and>
      whitelist_check trig msg"
    by (rule passes_filters_iff)
next
  assume b: "author_id msg \<in> set (blacklist_users trig)"
  then show nf: "\<not> passes_filters trig msg"
    by (simp add: passes_filters_iff blacklist_check_def)
  fix env :: pyenv and row :: trigger and st :: state
  assume r: "resolve st (pattern row) = Some trig"
  have "\<not> fires env msg trig" using nf by (simp add: fires_def)
  with row_step[OF r, of env msg]
  have "pass_fired msg st (snd (on_message_row env msg row st)) []" by auto
  then have "logs (snd (on_message_row env msg row st)) = logs st \<and>
             sent (snd (on_message_row env msg row st)) = sent st"
    by (rule pass_fired_Nil)
  then show "logs (snd (on_message_row env msg row st)) = logs st"
    and "sent (snd (on_message_row env msg row st)) = sent st" by simp_all
qed

theorem filter_pipeline_conjunction_witness:
  "author_id (user_message ''hello'' 42)
     \<in> set (blacklist_users ((basic_trigger 1 ''hello'' ''exact'' True ''hi!'')
               \<lparr>blacklist_users := [42], whitelist_users := [42, 43]\<rparr>)) \<and>
   whitelist_check ((basic_trigger 1 ''hello'' ''exact'' True ''hi!'')
               \<lparr>blacklist_users := [42], whitelist_users := [42, 43]\<rparr>) (user_message ''hello'' 42) \<and>
   match_trigger sample_env ((basic_trigger 1 ''hello'' ''exact'' True ''hi!'')
               \<lparr>blacklist_users := [42], whitelist_users := [42, 43]\<rparr>) ''hello'' = Inr True \<and>
   \<not> passes_filters ((basic_trigger 1 ''hello'' ''exact'' True ''hi!'')
               \<lparr>blacklist_users := [42], whitelist_users := [42, 43]\<rparr>) (user_message ''hello'' 42) \<and>
   sent (snd (on_message_row sample_env (user_message ''hello'' 42)
                (basic_trigger 1 ''hello'' ''exact'' True ''hi!'')
                (store_of [(basic_trigger 1 ''hello'' ''exact'' True ''hi!'')
                    \<lparr>blacklist_users := [42], whitelist_users := [42, 43]\<rparr>]))) = [] \<and>
   logs (snd (on_message_row sample_env (user_message ''hello'' 42)
                (basic_trigger 1 ''hello'' ''exact'' True ''hi!'')
                (store_of [(basic_trigger 1 ''hello'' ''exact'' True ''hi!'')
                    \<lparr>blacklist_users := [42], whitelist_users := [42, 43]\<rparr>]))) = []"
proof -
  let ?t = "(basic_trigger 1 ''hello'' ''exact'' True ''hi!'')
               \<lparr>blacklist_users := [42], whitelist_users := [42, 43]\<rparr>"
  let ?m = "user_message ''hello'' 42"
  let ?st = "store_of [?t]"
  have b: "author_id ?m \<in> set (blacklist_users ?t)"
    by (simp add: user_message_def basic_trigger_def)
  have w: "whitelist_check ?t ?m"
    by (simp add: whitelist_check_def user_message_def basic_trigger_def)
  have m: "match_trigger sample_env ?t ''hello'' = Inr True"
    by (simp add: match_trigger_def basic_trigger_def)
  have r: "resolve ?st (pattern (basic_trigger 1 ''hello'' ''exact'' True ''hi!'')) = Some ?t"
    by (simp add: resolve_eq store_of_def fetchone_by_pattern_def basic_trigger_def)
  have l: "logs ?st = []" "sent ?st = []" by (simp_all add: store_of_def)
  from filter_pipeline_conjunction[of ?t ?m] b r
  have "\<not> passes_filters ?t ?m"
    and "logs (snd (on_message_row sample_env ?m (basic_trigger 1 ''hello'' ''exact'' True ''hi!'') ?st)) = logs ?st"
    and "sent (snd (on_message_row sample_env ?m (basic_trigger 1 ''hello'' ''exact'' True ''hi!'') ?st)) = sent ?st"
    by blast+
  with b w m l show ?thesis by simp
qed

section \<open>The cache\<close>

text \<open>
  Claim C7. \<^verbatim>\<open>get_trigger\<close> reads through the cache. An entry of the dictionary is
  returned as it is and the state is unchanged, whatever the table holds (the table is not
  read). On a miss the table is queried: a row found there is stored in the dictionary
  under the pattern and returned; when no row has the pattern, the result is \<^verbatim>\<open>None\<close>
  and the state, the dictionary included, is unchanged.
\<close>

theorem get_trigger_read_through:
  "(cache st p = Some trig \<longrightarrow>
      (\<forall>rows. get_trigger p (st\<lparr>triggers := rows\<rparr>) = (Some trig, st\<lparr>triggers := rows\<rparr>))) \<and>
   (cache st p = None \<and> fetchone_by_pattern p (triggers st) = Some trig \<longrightarrow>
      get_trigger p st = (Some trig, st\<lparr>cache := (cache st)(p \<mapsto> trig)\<rparr>) \<and>
      trig \<in> set (triggers st) \<and> pattern trig = p) \<and>
   (cache st p = None \<and> (\<forall>row \<in> set (triggers st). pattern row \<noteq> p) \<longrightarrow>
      get_trigger p st = (None, st))"
  by (auto simp: get_trigger_def fetchone_None[symmetric] dest: fetchone_Some)

theorem get_trigger_read_through_witness:
  "get_trigger ''hi'' ((store_of [])\<lparr>cache := [''hi'' \<mapsto> basic_trigger 1 ''hi'' ''exact'' True ''yo'']\<rparr>)
     = (Some (basic_trigger 1 ''hi'' ''exact'' True ''yo''),
        (store_of [])\<lparr>cache := [''hi'' \<mapsto> basic_trigger 1 ''hi'' ''exact'' True ''yo'']\<rparr>) \<and>
   get_trigger ''hi'' (store_of [basic_trigger 1 ''hi'' ''exact'' True ''yo''])
     = (Some (basic_trigger 1 ''hi'' ''exact'' True ''yo''),
        (store_of [basic_trigger 1 ''hi'' ''exact'' True ''yo''])
          \<lparr>cache := [''hi'' \<mapsto> basic_trigger 1 ''hi'' ''exact'' True ''yo'']\<rparr>) \<and>
   get_trigger ''ho'' (store_of [basic_trigger 1 ''hi'' ''exact'' True ''yo''])
     = (None, store_of [basic_trigger 1 ''hi'' ''exact'' True ''yo''])"
proof -
  let ?t = "basic_trigger 1 ''hi'' ''exact'' True ''yo''"
  let ?c = "(store_of [])\<lparr>cache := [''hi'' \<mapsto> ?t]\<rparr>"
  have a: "cache ?c ''hi'' = Some ?t" by simp
  have b: "cache (store_of [?t]) ''hi'' = None \<and> fetchone_by_pattern ''hi'' (triggers (store_of [?t])) = Some ?t"
    by (simp add: store_of_def fetchone_by_pattern_def basic_trigger_def)
  have c: "cache (store_of [?t]) ''ho'' = None \<and> (\<forall>row \<in> set (triggers (store_of [?t])). pattern row \<noteq> ''ho'')"
    by (simp add: store_of_def basic_trigger_def)
  have t: "?c\<lparr>triggers := []\<rparr> = ?c" "cache (store_of [?t]) = Map.empty"
    by (simp_all add: store_of_def)
  from get_trigger_read_through[of ?c "''hi''" ?t] a
  have 1: "get_trigger ''hi'' (?c\<lparr>triggers := []\<rparr>) = (Some ?t, ?c\<lparr>triggers := []\<rparr>)" by blast
  from get_trigger_read_through[of "store_of [?t]" "''hi''" ?t] b
  have 2: "get_trigger ''hi'' (store_of [?t]) = (Some ?t, (store_of [?t])\<lparr>cache := (cache (store_of [?t]))(''hi'' \<mapsto> ?t)\<rparr>)"
    by blast
  from get_trigger_read_through[of "store_of [?t]" "''ho''" ?t] c
  have 3: "get_trigger ''ho'' (store_of [?t]) = (None, store_of [?t])" by blast
  show ?thesis using 1 2 3 unfolding t by simp
qed

section \<open>Creating and deleting triggers\<close>

text \<open>
  Claim C2, amended. \<^verbatim>\<open>add_trigger\<close> validates nothing: for every pattern, response text
  and match type it answers with the success message and appends one row with that pattern
  and match type, whose responses are the single text response built from the given text.
  Hence in every state reached from a fresh database through the commands of the cog,
  each persisted trigger has exactly one response, and so no empty list of responses.
\<close>

theorem add_trigger_persists_unvalidated:
  "fst (add_trigger env pat resp mtype st) =
     ''Trigger '' @ [CHR 0x27] @ pat @ [CHR 0x27] @ '' added successfully!'' \<and>
   (\<exists>row. triggers (snd (add_trigger env pat resp mtype st)) = triggers st @ [row] \<and>
          pattern row = pat \<and> match_type row = mtype \<and>
          responses row = [\<lparr>rtype = ''text'', rcontent = resp\<rparr>]) \<and>
   (reachable env st \<longrightarrow>
      (\<forall>t \<in> set (triggers st). \<exists>c. responses t = [\<lparr>rtype = ''text'', rcontent = c\<rparr>]))"
  using reachable_single_response[of env st]
  by (simp add: add_trigger_def add_trigger_to_db_def)

theorem add_trigger_persists_unvalidated_witness:
  "reachable sample_env (snd (add_trigger sample_env ''hello'' ''hi!'' ''exact'' init_state)) \<and>
   fst (add_trigger sample_env ''bye'' ''see you'' ''partial''
         (snd (add_trigger sample_env ''hello'' ''hi!'' ''exact'' init_state))) =
     ''Trigger '' @ [CHR 0x27] @ ''bye'' @ [CHR 0x27] @ '' added successfully!'' \<and>
   (\<exists>row. triggers (snd (add_trigger sample_env ''bye'' ''see you'' ''partial''
                 (snd (add_trigger sample_env ''hello'' ''hi!'' ''exact'' init_state)))) =
            triggers (snd (add_trigger sample_env ''hello'' ''hi!'' ''exact'' init_state)) @ [row] \<and>
          pattern row = ''bye'' \<and> match_type row = ''partial'' \<and>
          responses row = [\<lparr>rtype = ''text'', rcontent = ''see you''\<rparr>]) \<and>
   (\<exists>c. responses (hd (triggers (snd (add_trigger sample_env ''hello'' ''hi!'' ''exact'' init_state))))
          = [\<lparr>rtype = ''text'', rcontent = c\<rparr>])"
proof -
  let ?s = "snd (add_trigger sample_env ''hello'' ''hi!'' ''exact'' init_state)"
  have r: "reachable sample_env ?s"
    by (intro reach_add reach_init)
  have m: "hd (triggers ?s) \<in> set (triggers ?s)"
    by (simp add: add_trigger_def add_trigger_to_db_def init_state_def)
  from add_trigger_persists_unvalidated[of sample_env "''bye''" "''see you''" "''partial''" ?s] r
  have a: "fst (add_trigger sample_env ''bye'' ''see you'' ''partial'' ?s) =
             ''Trigger '' @ [CHR 0x27] @ ''bye'' @ [CHR 0x27] @ '' added successfully!''"
    and b: "\<exists>row. triggers (snd (add_trigger sample_env ''bye'' ''see you'' ''partial'' ?s)) =
                   triggers ?s @ [row] \<and>
                 pattern row = ''bye'' \<and> match_type row = ''partial'' \<and>
                 responses row = [\<lparr>rtype = ''text'', rcontent = ''see you''\<rparr>]"
    and c: "\<forall>t \<in> set (triggers ?s). \<exists>c. responses t = [\<lparr>rtype = ''text'', rcontent = c\<rparr>]"
    by blast+
  from c m have "\<exists>c. responses (hd (triggers ?s)) = [\<lparr>rtype = ''text'', rcontent = c\<rparr>]"
    by blast
  with r a b show ?thesis by blast
qed

text \<open>
  Claim C2 as stated fails: with the empty pattern and the empty response text the command
  reports success and the row is persisted, with the empty pattern and a response of empty
  content.
\<close>

theorem add_trigger_empty_input_counterexample:
  "fst (add_trigger sample_env [] [] ''exact'' init_state) =
     ''Trigger '' @ [CHR 0x27, CHR 0x27] @ '' added successfully!'' \<and>
   map pattern (triggers (snd (add_trigger sample_env [] [] ''exact'' init_state))) = [[]] \<and>
   map responses (triggers (snd (add_trigger sample_env [] [] ''exact'' init_state))) =
     [[\<lparr>rtype = ''text'', rcontent = []\<rparr>]]"
  by (simp add: add_trigger_def add_trigger_to_db_def init_state_def)

text \<open>
  Claim C6. In a state that satisfies the invariant of store and cache,
  \<^verbatim>\<open>delete_trigger\<close> answers with its success message and removes every row with the
  pattern from the table and the pattern from the cache. Afterwards \<^verbatim>\<open>get_trigger\<close> returns
  \<^verbatim>\<open>None\<close> for the pattern; every trigger fired by a pass of \<^verbatim>\<open>on_message\<close> over any
  message is a remaining row, with another pattern and with an id that no deleted row had.
  Deleting again changes nothing, and deleting a pattern that no row has leaves the state
  as it was.
\<close>

theorem delete_trigger_removes:
  assumes "store_ok st"
  shows "fst (delete_trigger p st) =
           ''Trigger '' @ [CHR 0x27] @ p @ [CHR 0x27] @ '' deleted successfully!'' \<and>
         triggers (snd (delete_trigger p st)) = filter (\<lambda>row. pattern row \<noteq> p) (triggers st) \<and>
         cache (snd (delete_trigger p st)) p = None \<and>
         get_trigger p (snd (delete_trigger p st)) = (None, snd (delete_trigger p st)) \<and>
         (\<forall>env msg. \<exists>fired.
            pass_fired msg (snd (delete_trigger p st))
              (snd (on_message env msg (snd (delete_trigger p st)))) fired \<and>
            (\<forall>t \<in> set fired. fires env msg t \<and> pattern t \<noteq> p \<and>
               t \<in> set (triggers (snd (delete_trigger p st))) \<and>
               (\<forall>d \<in> set (triggers st). pattern d = p \<longrightarrow> tid d \<noteq> tid t))) \<and>
         delete_trigger p (snd (delete_trigger p st)) = delete_trigger p st \<and>
         ((\<forall>row \<in> set (triggers st). pattern row \<noteq> p) \<longrightarrow> snd (delete_trigger p st) = st)"
proof -
  let ?st' = "snd (delete_trigger p st)"
  have ok': "store_ok ?st'" using assms by (rule store_ok_delete)
  have rows': "triggers ?st' = filter (\<lambda>row. pattern row \<noteq> p) (triggers st)"
    by (simp add: delete_trigger_fields)
  have c': "cache ?st' p = None" by (simp add: delete_trigger_fields)
  have none: "fetchone_by_pattern p (triggers ?st') = None"
    by (simp add: fetchone_None rows')
  have g: "get_trigger p ?st' = (None, ?st')"
    using c' none by (simp add: get_trigger_def)
  have pass: "\<exists>fired. pass_fired msg ?st' (snd (on_message env msg ?st')) fired \<and>
            (\<forall>t \<in> set fired. fires env msg t \<and> pattern t \<noteq> p \<and> t \<in> set (triggers ?st') \<and>
               (\<forall>d \<in> set (triggers st). pattern d = p \<longrightarrow> tid d \<noteq> tid t))" for env msg
  proof -
    from on_message_sound[of env msg ?st'] obtain fired where
      pf: "pass_fired msg ?st' (snd (on_message env msg ?st')) fired"
      and fr: "\<forall>t \<in> set fired. fires env msg t \<and>
                (\<exists>r \<in> set (triggers ?st'). resolve ?st' (pattern r) = Some t)"
      by blast
    have "fires env msg t \<and> pattern t \<noteq> p \<and> t \<in> set (triggers ?st') \<and>
          (\<forall>d \<in> set (triggers st). pattern d = p \<longrightarrow> tid d \<noteq> tid t)" if "t \<in> set fired" for t
    proof -
      from fr that obtain r where r: "r \<in> set (triggers ?st')" "resolve ?st' (pattern r) = Some t"
        by blast
      from resolve_in_store[OF ok' r(2)] have t: "t \<in> set (triggers ?st')" "pattern t = pattern r"
        by simp_all
      have "pattern r \<noteq> p" using r(1) by (simp add: rows')
      then have np: "pattern t \<noteq> p" using t by simp
      have tin: "t \<in> set (triggers st)" using t(1) by (simp add: rows')
      have "tid d \<noteq> tid t" if d: "d \<in> set (triggers st)" "pattern d = p" for d
      proof
        assume "tid d = tid t"
        moreover have "inj_on tid (set (triggers st))"
          using assms by (simp add: store_ok_def distinct_map)
        ultimately have "d = t" using d(1) tin by (meson inj_onD)
        with d(2) np show False by simp
      qed
      moreover have "fires env msg t" using fr that by blast
      ultimately show ?thesis using np t(1) by blast
    qed
    with pf show ?thesis by blast
  qed
  have idem: "delete_trigger p ?st' = delete_trigger p st"
    by (rule prod_eqI) (simp_all add: delete_trigger_reply delete_trigger_idem)
  show ?thesis
    using delete_trigger_reply[of p st] rows' c' g pass idem delete_trigger_absent[OF assms, of p]
    by blast
qed

theorem delete_trigger_removes_witness:
  "store_ok (snd (on_message sample_env (user_message ''hello'' 5)
       (store_of [basic_trigger 1 ''hello'' ''exact'' True ''hi!'', basic_trigger 2 ''bye'' ''exact'' True ''ciao'']))) \<and>
   dom (cache (snd (on_message sample_env (user_message ''hello'' 5)
       (store_of [basic_trigger 1 ''hello'' ''exact'' True ''hi!'', basic_trigger 2 ''bye'' ''exact'' True ''ciao''])))) = {''hello'', ''bye''} \<and>
   triggers (snd (delete_trigger ''hello'' (snd (on_message sample_env (user_message ''hello'' 5)
       (store_of [basic_trigger 1 ''hello'' ''exact'' True ''hi!'', basic_trigger 2 ''bye'' ''exact'' True ''ciao''])))))
     = [basic_trigger 2 ''bye'' ''exact'' True ''ciao''] \<and>
   fst (get_trigger ''hello'' (snd (delete_trigger ''hello'' (snd (on_message sample_env (user_message ''hello'' 5)
       (store_of [basic_trigger 1 ''hello'' ''exact'' True ''hi!'', basic_trigger 2 ''bye'' ''exact'' True ''ciao'']))))))
     = None \<and>
   sent (snd (on_message sample_env (user_message ''hello'' 5)
       (snd (delete_trigger ''hello'' (snd (on_message sample_env (user_message ''hello'' 5)
       (store_of [basic_trigger 1 ''hello'' ''exact'' True ''hi!'', basic_trigger 2 ''bye'' ''exact'' True ''ciao''])))))))
     = [(7, Send_text ''hi!'')]"
proof -
  let ?t1 = "basic_trigger 1 ''hello'' ''exact'' True ''hi!''"
  let ?t2 = "basic_trigger 2 ''bye'' ''exact'' True ''ciao''"
  let ?m = "user_message ''hello'' 5"
  let ?s = "snd (on_message sample_env ?m (store_of [?t1, ?t2]))"
  let ?d = "snd (delete_trigger ''hello'' ?s)"
  have "store_ok (store_of [?t1, ?t2])"
    by (simp add: store_ok_def store_of_def basic_trigger_def)
  then have ok: "store_ok ?s" by (rule store_ok_on_message)
  have rows: "triggers ?s = [?t1, ?t2]" by (simp add: on_message_triggers store_of_def)
  have dm: "dom (cache ?s) = {''hello'', ''bye''}"
    by (auto simp: on_message_def on_message_row_def get_trigger_def fetchone_by_pattern_def
        store_of_def basic_trigger_def user_message_def match_trigger_def passes_filters_def
        random_choice_def split: if_splits)
  have before: "sent ?s = [(7, Send_text ''hi!'')]" by code_simp
  from delete_trigger_removes[OF ok, of "''hello''"]
  have a: "triggers ?d = filter (\<lambda>row. pattern row \<noteq> ''hello'') (triggers ?s)"
    and b: "get_trigger ''hello'' ?d = (None, ?d)"
    by blast+
  have a': "triggers ?d = [?t2]" unfolding a rows by (simp add: basic_trigger_def)
  have after: "sent (snd (on_message sample_env ?m ?d)) = [(7, Send_text ''hi!'')]" by code_simp
  show ?thesis using ok dm a' b after by simp
qed

section \<open>The dispatcher\<close>

text \<open>
  Claim C9. A message whose author is a bot account, as every message of the bot itself
  is, leaves \<^verbatim>\<open>on_message\<close> at its first statement: no exception, and the state is
  unchanged, so that no trigger was looked up, nothing was sent and no ledger row was
  appended, whatever triggers are stored.
\<close>

theorem self_message_ignored:
  "author_bot msg \<Longrightarrow> on_message env msg st = (None, st)"
  by (simp add: on_message_def)

theorem self_message_ignored_witness:
  "author_bot ((user_message ''hello'' 1)\<lparr>author_bot := True\<rparr>) \<and>
   fires sample_env ((user_message ''hello'' 1)\<lparr>author_bot := True\<rparr>)
     (basic_trigger 1 ''hello'' ''exact'' True ''hi!'') \<and>
   on_message sample_env ((user_message ''hello'' 1)\<lparr>author_bot := True\<rparr>)
     (store_of [basic_trigger 1 ''hello'' ''exact'' True ''hi!''])
   = (None, store_of [basic_trigger 1 ''hello'' ''exact'' True ''hi!''])"
proof -
  have b: "author_bot ((user_message ''hello'' 1)\<lparr>author_bot := True\<rparr>)" by simp
  have f: "fires sample_env ((user_message ''hello'' 1)\<lparr>author_bot := True\<rparr>)
     (basic_trigger 1 ''hello'' ''exact'' True ''hi!'')"
    by (simp add: fires_def match_trigger_def passes_filters_def basic_trigger_def user_message_def)
  show ?thesis using b f self_message_ignored[OF b] by simp
qed

text \<open>
  Claim C1, amended. For a message whose author is not a bot, in a state that satisfies the
  invariant of store and cache and whose rows have pairwise distinct patterns, when every
  row has a response and the regular expression engine raises nothing but \<^verbatim>\<open>re.error\<close>:
  the pass ends without exception and fires exactly the rows that match the message and
  pass their filters, each once and in row order, with one response and one ledger row
  for each.
\<close>

theorem fan_out_distinct_patterns:
  assumes "\<not> author_bot msg" "store_ok st" "distinct (map pattern (triggers st))"
    and "\<forall>t \<in> set (triggers st). responses t \<noteq> [] \<and> match_trigger env t (content msg) \<noteq> Inl ReRaised"
  shows "\<exists>st'. on_message env msg st = (None, st') \<and>
           pass_fired msg st st' (filter (fires env msg) (triggers st))"
proof -
  have "list_all2 (\<lambda>r t. resolve st (pattern r) = Some t) (triggers st) (triggers st)"
    using resolve_self[OF assms(2,3)] by (simp add: list_all2_same)
  from rows_exact[OF this assms(4)] show ?thesis using assms(1) by (simp add: on_message_def)
qed

theorem fan_out_distinct_patterns_witness:
  "\<not> author_bot (user_message ''oh hi'' 5) \<and>
   store_ok (store_of [basic_trigger 1 ''hi'' ''partial'' True ''one'', basic_trigger 2 ''oh'' ''partial'' True ''two'']) \<and>
   distinct (map pattern (triggers (store_of [basic_trigger 1 ''hi'' ''partial'' True ''one'', basic_trigger 2 ''oh'' ''partial'' True ''two'']))) \<and>
   filter (fires sample_env (user_message ''oh hi'' 5))
     (triggers (store_of [basic_trigger 1 ''hi'' ''partial'' True ''one'', basic_trigger 2 ''oh'' ''partial'' True ''two'']))
     = [basic_trigger 1 ''hi'' ''partial'' True ''one'', basic_trigger 2 ''oh'' ''partial'' True ''two''] \<and>
   (\<exists>st'. on_message sample_env (user_message ''oh hi'' 5)
            (store_of [basic_trigger 1 ''hi'' ''partial'' True ''one'', basic_trigger 2 ''oh'' ''partial'' True ''two''])
            = (None, st') \<and>
          pass_fired (user_message ''oh hi'' 5)
            (store_of [basic_trigger 1 ''hi'' ''partial'' True ''one'', basic_trigger 2 ''oh'' ''partial'' True ''two''])
            st' [basic_trigger 1 ''hi'' ''partial'' True ''one'', basic_trigger 2 ''oh'' ''partial'' True ''two'']) \<and>
   map trigger_id (logs (snd (on_message sample_env (user_message ''oh hi'' 5)
            (store_of [basic_trigger 1 ''hi'' ''partial'' True ''one'', basic_trigger 2 ''oh'' ''partial'' True ''two''])))) = [1, 2] \<and>
   sent (snd (on_message sample_env (user_message ''oh hi'' 5)
            (store_of [basic_trigger 1 ''hi'' ''partial'' True ''one'', basic_trigger 2 ''oh'' ''partial'' True ''two'']))) =
     [(7, Send_text ''one''), (7, Send_text ''two'')]"
proof -
  let ?m = "user_message ''oh hi'' 5"
  let ?t1 = "basic_trigger 1 ''hi'' ''partial'' True ''one''"
  let ?t2 = "basic_trigger 2 ''oh'' ''partial'' True ''two''"
  let ?st = "store_of [?t1, ?t2]"
  have h1: "\<not> author_bot ?m" by (simp add: user_message_def)
  have h2: "store_ok ?st" by (simp add: store_ok_def store_of_def basic_trigger_def)
  have h3: "distinct (map pattern (triggers ?st))" by (simp add: store_of_def basic_trigger_def)
  have h4: "\<forall>t \<in> set (triggers ?st). responses t \<noteq> [] \<and> match_trigger sample_env t (content ?m) \<noteq> Inl ReRaised"
    by (simp add: store_of_def basic_trigger_def match_trigger_def)
  have f: "filter (fires sample_env ?m) (triggers ?st) = [?t1, ?t2]"
    by (simp add: store_of_def basic_trigger_def fires_def match_trigger_def passes_filters_def user_message_def)
  have l: "map trigger_id (logs (snd (on_message sample_env ?m ?st))) = [1, 2]" by code_simp
  have s: "sent (snd (on_message sample_env ?m ?st)) = [(7, Send_text ''one''), (7, Send_text ''two'')]"
    by code_simp
  show ?thesis
    using h1 h2 h3 f l s fan_out_distinct_patterns[OF h1 h2 h3 h4] by simp
qed

text \<open>
  Claim C1 as stated fails when two rows share a pattern. After adding the pattern
  \<open>hi\<close> twice, first with match type \<open>exact\<close> and then with \<open>partial\<close>, the message
  \<open>oh hi\<close> of a user matches the second row, which has no filter, but both iterations
  look up the first row, which does not match: nothing is sent and no ledger row is
  appended.
\<close>

theorem fan_out_same_pattern_counterexample:
  "\<not> author_bot (user_message ''oh hi'' 5) \<and>
   map tid (triggers (snd (add_trigger sample_env ''hi'' ''two'' ''partial''
          (snd (add_trigger sample_env ''hi'' ''one'' ''exact'' init_state))))) = [1, 2] \<and>
   fires sample_env (user_message ''oh hi'' 5)
     (triggers (snd (add_trigger sample_env ''hi'' ''two'' ''partial''
          (snd (add_trigger sample_env ''hi'' ''one'' ''exact'' init_state)))) ! 1) \<and>
   fst (on_message sample_env (user_message ''oh hi'' 5)
          (snd (add_trigger sample_env ''hi'' ''two'' ''partial''
            (snd (add_trigger sample_env ''hi'' ''one'' ''exact'' init_state))))) = None \<and>
   sent (snd (on_message sample_env (user_message ''oh hi'' 5)
          (snd (add_trigger sample_env ''hi'' ''two'' ''partial''
            (snd (add_trigger sample_env ''hi'' ''one'' ''exact'' init_state)))))) = [] \<and>
   logs (snd (on_message sample_env (user_message ''oh hi'' 5)
          (snd (add_trigger sample_env ''hi'' ''two'' ''partial''
            (snd (add_trigger sample_env ''hi'' ''one'' ''exact'' init_state)))))) = []"
  by code_simp

text \<open>
  Claim C10. Each iteration of the dispatcher works on the trigger that \<^verbatim>\<open>get_trigger\<close>
  returns for the pattern of its row. For a message of a user, in a state that satisfies
  the invariant, with a response in every row and an engine that raises nothing but
  \<^verbatim>\<open>re.error\<close>: the pass ends without exception, and what it fires is decided on the list
  \<open>ts\<close> of the looked-up triggers, one for each row, in which every row with the pattern
  \<open>p\<close> is represented by the one trigger \<open>t0\<close> that the lookup of \<open>p\<close> returns. The
  match, the filters, the responses and the id written to the ledger are those of \<open>t0\<close>;
  the fields of the other rows with that pattern are not used. When all rows share the
  pattern, \<open>ts\<close> is \<open>t0\<close> repeated once for each row.
\<close>

theorem same_pattern_rows_fire_the_looked_up_trigger:
  assumes "\<not> author_bot msg" "store_ok st"
    and "\<forall>t \<in> set (triggers st). responses t \<noteq> [] \<and> match_trigger env t (content msg) \<noteq> Inl ReRaised"
    and "resolve st p = Some t0"
  shows "\<exists>ts st'.
           list_all2 (\<lambda>row t. resolve st (pattern row) = Some t \<and> (pattern row = p \<longrightarrow> t = t0))
             (triggers st) ts \<and>
           on_message env msg st = (None, st') \<and>
           pass_fired msg st st' (filter (fires env msg) ts) \<and>
           ((\<forall>row \<in> set (triggers st). pattern row = p) \<longrightarrow>
              ts = replicate (length (triggers st)) t0)"
proof -
  from resolved_exists[of "triggers st" st] obtain ts where
    ts: "list_all2 (\<lambda>r t. resolve st (pattern r) = Some t) (triggers st) ts" by blast
  have in_store: "t \<in> set (triggers st)" if "t \<in> set ts" for t
  proof -
    from list_all2_rangeD[OF ts that] obtain r :: trigger where "resolve st (pattern r) = Some t" by blast
    from resolve_in_store[OF assms(2) this] show ?thesis by simp
  qed
  then have ok: "\<forall>t \<in> set ts. responses t \<noteq> [] \<and> match_trigger env t (content msg) \<noteq> Inl ReRaised"
    using assms(3) by blast
  from rows_exact[OF ts ok] obtain st' where
    run: "on_message_rows env msg (triggers st) st = (None, st')"
    and pf: "pass_fired msg st st' (filter (fires env msg) ts)" by blast
  have ts': "list_all2 (\<lambda>row t. resolve st (pattern row) = Some t \<and> (pattern row = p \<longrightarrow> t = t0))
             (triggers st) ts"
    using ts by (rule list_all2_mono) (use assms(4) in auto)
  have same: "ts = replicate (length (triggers st)) t0" if all: "\<forall>row \<in> set (triggers st). pattern row = p"
  proof -
    have "t = t0" if "t \<in> set ts" for t
    proof -
      from list_all2_rangeD[OF ts' that] obtain r :: trigger where "r \<in> set (triggers st)"
        "pattern r = p \<longrightarrow> t = t0" by blast
      with all show ?thesis by simp
    qed
    then have "ts = replicate (length ts) t0" by (simp add: replicate_length_same)
    moreover have "length ts = length (triggers st)" using ts by (simp add: list_all2_lengthD)
    ultimately show ?thesis by simp
  qed
  have "on_message env msg st = (None, st')" using run assms(1) by (simp add: on_message_def)
  with ts' pf same show ?thesis by blast
qed

theorem same_pattern_rows_fire_the_looked_up_trigger_witness:
  "\<not> author_bot (user_message ''hi'' 5) \<and>
   store_ok (store_of [basic_trigger 1 ''hi'' ''exact'' True ''one'',
                       (basic_trigger 2 ''hi'' ''partial'' True ''two'')\<lparr>whitelist_users := [42]\<rparr>]) \<and>
   resolve (store_of [basic_trigger 1 ''hi'' ''exact'' True ''one'',
                      (basic_trigger 2 ''hi'' ''partial'' True ''two'')\<lparr>whitelist_users := [42]\<rparr>]) ''hi''
     = Some (basic_trigger 1 ''hi'' ''exact'' True ''one'') \<and>
   (\<exists>st'. on_message sample_env (user_message ''hi'' 5)
            (store_of [basic_trigger 1 ''hi'' ''exact'' True ''one'',
                       (basic_trigger 2 ''hi'' ''partial'' True ''two'')\<lparr>whitelist_users := [42]\<rparr>])
            = (None, st') \<and>
          pass_fired (user_message ''hi'' 5)
            (store_of [basic_trigger 1 ''hi'' ''exact'' True ''one'',
                       (basic_trigger 2 ''hi'' ''partial'' True ''two'')\<lparr>whitelist_users := [42]\<rparr>])
            st'
            [basic_trigger 1 ''hi'' ''exact'' True ''one'', basic_trigger 1 ''hi'' ''exact'' True ''one'']) \<and>
   map trigger_id (logs (snd (on_message sample_env (user_message ''hi'' 5)
            (store_of [basic_trigger 1 ''hi'' ''exact'' True ''one'',
                       (basic_trigger 2 ''hi'' ''partial'' True ''two'')\<lparr>whitelist_users := [42]\<rparr>])))) = [1, 1] \<and>
   sent (snd (on_message sample_env (user_message ''hi'' 5)
            (store_of [basic_trigger 1 ''hi'' ''exact'' True ''one'',
                       (basic_trigger 2 ''hi'' ''partial'' True ''two'')\<lparr>whitelist_users := [42]\<rparr>]))) =
     [(7, Send_text ''one''), (7, Send_text ''one'')]"
proof -
  let ?m = "user_message ''hi'' 5"
  let ?t1 = "basic_trigger 1 ''hi'' ''exact'' True ''one''"
  let ?t2 = "(basic_trigger 2 ''hi'' ''partial'' True ''two'')\<lparr>whitelist_users := [42]\<rparr>"
  let ?st = "store_of [?t1, ?t2]"
  have h1: "\<not> author_bot ?m" by (simp add: user_message_def)
  have h2: "store_ok ?st" by (simp add: store_ok_def store_of_def basic_trigger_def)
  have h3: "\<forall>t \<in> set (triggers ?st). responses t \<noteq> [] \<and> match_trigger sample_env t (content ?m) \<noteq> Inl ReRaised"
    by (simp add: store_of_def basic_trigger_def match_trigger_def)
  have h4: "resolve ?st ''hi'' = Some ?t1"
    by (simp add: resolve_eq store_of_def fetchone_by_pattern_def basic_trigger_def)
  have all: "\<forall>row \<in> set (triggers ?st). pattern row = ''hi''"
    by (simp add: store_of_def basic_trigger_def)
  have len: "replicate (length (triggers ?st)) ?t1 = [?t1, ?t1]"
    by (simp add: store_of_def)
  have f: "filter (fires sample_env ?m) [?t1, ?t1] = [?t1, ?t1]"
    by (simp add: basic_trigger_def fires_def match_trigger_def passes_filters_def user_message_def)
  have l: "map trigger_id (logs (snd (on_message sample_env ?m ?st))) = [1, 1]" by code_simp
  have s: "sent (snd (on_message sample_env ?m ?st)) = [(7, Send_text ''one''), (7, Send_text ''one'')]"
    by code_simp
  from same_pattern_rows_fire_the_looked_up_trigger[OF h1 h2 h3 h4] all
  obtain ts st' where "ts = replicate (length (triggers ?st)) ?t1"
    and "on_message sample_env ?m ?st = (None, st')"
    and "pass_fired ?m ?st st' (filter (fires sample_env ?m) ts)"
    by blast
  then have "\<exists>st'. on_message sample_env ?m ?st = (None, st') \<and> pass_fired ?m ?st st' [?t1, ?t1]"
    unfolding len using f by auto
  with h1 h2 h4 l s show ?thesis by simp
qed

end
